theory Spec2Isabelle
  imports Main "HOL-Library.Word"
begin

section \<open>JavaScript values shared by the three components\<close>

type_synonym bytes = "8 word list"
type_synonym addr = nat

text \<open>Errors the code throws or rejects with; \<open>Cancellation\<close> is the class of
  real-cancellable-promise.\<close>

datatype js_error =
    TypeError string
  | RangeError string
  | Error string
  | Cancellation

text \<open>The state of a native promise. Settling is one-way: \<open>promise_resolve\<close> and
  \<open>promise_reject\<close> are the two functions handed to the executor, and both do nothing
  once the promise has left \<open>Pending\<close>.\<close>

datatype 'a promise_state = Pending | Fulfilled 'a | Rejected js_error

definition promise_resolve :: "'a \<Rightarrow> 'a promise_state \<Rightarrow> 'a promise_state" where
  "promise_resolve v p = (case p of Pending \<Rightarrow> Fulfilled v | _ \<Rightarrow> p)"

definition promise_reject :: "js_error \<Rightarrow> 'a promise_state \<Rightarrow> 'a promise_state" where
  "promise_reject e p = (case p of Pending \<Rightarrow> Rejected e | _ \<Rightarrow> p)"

text \<open>What a call of an async method has done when control comes back to the model:
  it is suspended at an \<open>await\<close> that nothing has resolved yet, it has thrown, or it has
  returned.\<close>

datatype 'a outcome = Awaiting | Throws js_error | Returns 'a

section \<open>RequestState and MessagePacker\<close>

record request =
  classType :: string
  className :: "string option"
  constructor_name :: string

text \<open>\<open>RequestState\<close>: the fields its constructor sets. \<open>after\<close> is a reference to another
  RequestState; \<open>promise\<close> is the state of the promise whose \<open>resolve\<close> and \<open>reject\<close>
  functions the constructor stores in the object.\<close>

record RequestState =
  containerId :: "int option"
  msgId :: "int option"
  request :: request
  data :: bytes
  after :: "addr option"
  promise :: "bytes promise_state"

definition RequestState_constructor :: "request \<Rightarrow> bytes \<Rightarrow> addr option \<Rightarrow> RequestState" where
  "RequestState_constructor req req_bytes aft =
     \<lparr>containerId = None, msgId = None, request = req, data = req_bytes,
      after = aft, promise = Pending\<rparr>"

text \<open>\<open>state.reject(e)\<close>, the reject function of the promise of a RequestState.\<close>

definition reject :: "js_error \<Rightarrow> RequestState \<Rightarrow> RequestState" where
  "reject e st = st\<lparr>promise := promise_reject e (promise st)\<rparr>"

text \<open>The constants of \<open>MessageContainer\<close> and \<open>TLMessage\<close> and the session object's
  \<open>writeDataAsMessage\<close> live in modules that are not part of the sources at hand, so they
  are parameters. \<open>writeDataAsMessage C s payload contentRelated afterId\<close> gives the
  message id it returns, the bytes it writes at the end of the buffer and the session
  state it leaves behind.\<close>

record 'st config =
  MAXIMUM_SIZE :: nat
  MAXIMUM_LENGTH :: nat
  CONSTRUCTOR_ID :: "32 word"
  SIZE_OVERHEAD :: nat
  writeDataAsMessage :: "'st \<Rightarrow> bytes \<Rightarrow> bool \<Rightarrow> int option \<Rightarrow> int \<times> bytes \<times> 'st"

datatype log_event =
    Debug_assigned int string
  | Warn_too_long string nat

text \<open>Request states are objects: the queue, a batch and the caller hold references to the
  same object, so the model keeps them in a store and the lists hold addresses.\<close>

record 'st MessagePacker =
  heap :: "addr \<Rightarrow> RequestState"
  state :: 'st
  queue :: "addr list"
  pendingStates :: "addr list"
  ready :: bool
  log :: "log_event list"

definition MessagePacker_constructor ::
    "(addr \<Rightarrow> RequestState) \<Rightarrow> 'st \<Rightarrow> 'st MessagePacker" where
  "MessagePacker_constructor h s =
     \<lparr>heap = h, state = s, queue = [], pendingStates = [], ready = False, log = []\<rparr>"

definition values_queue :: "'st MessagePacker \<Rightarrow> addr list" where
  "values_queue p = queue p"

definition append_state :: "addr \<Rightarrow> 'st MessagePacker \<Rightarrow> 'st MessagePacker" where
  "append_state a p = p\<lparr>queue := queue p @ [a], ready := True\<rparr>"

fun extend_states :: "addr list \<Rightarrow> 'st MessagePacker \<Rightarrow> 'st MessagePacker" where
  "extend_states [] p = p"
| "extend_states (a # as) p = extend_states as (append_state a p)"

definition request_name :: "request \<Rightarrow> string" where
  "request_name r =
     (case className r of
        Some n \<Rightarrow> if n \<noteq> [] then n else constructor_name r
      | None \<Rightarrow> constructor_name r)"

definition writeUInt32LE :: "32 word \<Rightarrow> bytes" where
  "writeUInt32LE w = [ucast w, ucast (drop_bit 8 w), ucast (drop_bit 16 w), ucast (drop_bit 24 w)]"

definition writeInt32LE :: "int \<Rightarrow> js_error + bytes" where
  "writeInt32LE v =
     (if - (2 ^ 31) \<le> v \<and> v < 2 ^ 31 then Inr (writeUInt32LE (word_of_int v))
      else Inl (RangeError ''The value of \"value\" is out of range.''))"

text \<open>The local variables of \<open>get\<close> together with what its loop mutates.\<close>

record 'st get_vars =
  v_heap :: "addr \<Rightarrow> RequestState"
  v_state :: 'st
  v_log :: "log_event list"
  buffer :: bytes
  batch :: "addr list"
  size_v :: nat

text \<open>The body of the branch \<open>size <= MAXIMUM_SIZE\<close>: the entry is written to the
  buffer as a message, takes the id the session gives it and joins the batch.\<close>

definition accept :: "'st config \<Rightarrow> addr \<Rightarrow> 'st get_vars \<Rightarrow> 'st get_vars" where
  "accept C a v =
     (let st = v_heap v a;
          afterId = (case after st of None \<Rightarrow> None | Some b \<Rightarrow> msgId (v_heap v b));
          (mid, written, s') =
             writeDataAsMessage C (v_state v) (data st)
               (classType (request st) = ''request'') afterId
      in v\<lparr>v_heap := (v_heap v)(a := st\<lparr>msgId := Some mid\<rparr>),
           v_state := s',
           v_log := v_log v @ [Debug_assigned mid (request_name (request st))],
           buffer := buffer v @ written,
           batch := batch v @ [a]\<rparr>)"

text \<open>The \<open>while\<close> loop of \<open>get\<close>, by recursion on the queue. The result is the error
  thrown, if any, the queue left and the variables. In the branch of an entry too big for
  an empty batch the code calls \<open>state.promise.reject\<close>; \<open>state.promise\<close> is a native
  promise, which has no such method (the reject function is \<open>state.reject\<close>), so the call
  throws a TypeError and \<open>size = 0\<close> after it is never reached.\<close>

fun get_loop ::
    "'st config \<Rightarrow> addr list \<Rightarrow> 'st get_vars \<Rightarrow> js_error option \<times> addr list \<times> 'st get_vars" where
  "get_loop C [] v = (None, [], v)"
| "get_loop C (a # q) v =
     (if length (batch v) \<le> MAXIMUM_LENGTH C then
        (let v1 = v\<lparr>size_v := size_v v + (length (data (v_heap v a)) + SIZE_OVERHEAD C)\<rparr>
         in if size_v v1 \<le> MAXIMUM_SIZE C then get_loop C q (accept C a v1)
            else if batch v1 \<noteq> [] then (None, a # q, v1)
            else (Some (TypeError ''state.promise.reject is not a function''), q,
                  v1\<lparr>v_log := v_log v1 @
                       [Warn_too_long (request_name (request (v_heap v1 a)))
                          (length (data (v_heap v1 a)))]\<rparr>))
      else (None, a # q, v))"

definition set_containerId :: "int \<Rightarrow> addr list \<Rightarrow> (addr \<Rightarrow> RequestState) \<Rightarrow> addr \<Rightarrow> RequestState" where
  "set_containerId cid b h = foldl (\<lambda>h' a. h'(a := (h' a)\<lparr>containerId := Some cid\<rparr>)) h b"

definition get_vars_init :: "'st MessagePacker \<Rightarrow> 'st get_vars" where
  "get_vars_init p =
     \<lparr>v_heap = heap p, v_state = state p, v_log = log p, buffer = [], batch = [], size_v = 0\<rparr>"

text \<open>\<open>get\<close>. With an empty queue it replaces the \<open>_ready\<close> promise and waits for it; the
  model stops there with \<open>Awaiting\<close>, and the call goes on once \<open>append\<close> has resolved the
  promise, which is \<open>get\<close> on the queue as it is then. A call is taken as one step: what
  other tasks append while it waits for the session lands behind the entries it is looking
  at. The result \<open>Returns None\<close> is the \<open>null\<close> of the code, \<open>Returns (Some (batch, data))\<close>
  its \<open>{ batch, data }\<close>. For a batch of several entries the eight bytes of constructor id
  and count go in front of the buffer, and that payload is written as a message of its own
  into a fresh buffer, which is what the call returns.\<close>

definition get ::
    "'st config \<Rightarrow> 'st MessagePacker \<Rightarrow> (addr list \<times> bytes) option outcome \<times> 'st MessagePacker" where
  "get C p =
     (if queue p = [] then (Awaiting, p\<lparr>ready := False\<rparr>)
      else
        (case get_loop C (queue p) (get_vars_init p) of
           (Some err, q', v) \<Rightarrow>
             (Throws err, p\<lparr>heap := v_heap v, state := v_state v, queue := q', log := v_log v\<rparr>)
         | (None, q', v) \<Rightarrow>
             (let p' = p\<lparr>heap := v_heap v, state := v_state v, queue := q', log := v_log v\<rparr>
              in if batch v = [] then (Returns None, p')
                 else if length (batch v) > 1 then
                   (case writeInt32LE (int (length (batch v))) of
                      Inl err \<Rightarrow> (Throws err, p')
                    | Inr count \<Rightarrow>
                        (let payload = writeUInt32LE (CONSTRUCTOR_ID C) @ count @ buffer v;
                             (cid, written, s') =
                                writeDataAsMessage C (v_state v) payload False None
                         in (Returns (Some (batch v, written)),
                             p'\<lparr>heap := set_containerId cid (batch v) (v_heap v),
                                state := s'\<rparr>)))
                 else (Returns (Some (batch v, buffer v)), p'))))"

definition returned_batch :: "(addr list \<times> bytes) option outcome \<Rightarrow> addr list" where
  "returned_batch r = (case r of Returns (Some (b, d)) \<Rightarrow> b | _ \<Rightarrow> [])"

definition returned_data :: "(addr list \<times> bytes) option outcome \<Rightarrow> bytes" where
  "returned_data r = (case r of Returns (Some (b, d)) \<Rightarrow> d | _ \<Rightarrow> [])"

text \<open>\<open>rejectAll\<close> walks \<open>_pendingStates\<close>, the list the constructor creates empty and
  no method of the class writes to.\<close>

definition disconnect_error :: "RequestState \<Rightarrow> js_error" where
  "disconnect_error st =
     Error (''Disconnect (caused from '' @
            (case className (request st) of Some n \<Rightarrow> n | None \<Rightarrow> ''undefined'') @ '')'')"

definition rejectAll :: "'st MessagePacker \<Rightarrow> 'st MessagePacker" where
  "rejectAll p =
     p\<lparr>heap := foldl (\<lambda>h a. h(a := reject (disconnect_error (h a)) (h a))) (heap p)
                 (pendingStates p)\<rparr>"

text \<open>The encoded size of a batch as \<open>get\<close> counts it: payload length plus the overhead
  of a message, summed over the entries. An entry fits when it is within the size limit on
  its own.\<close>

definition batch_size :: "'st config \<Rightarrow> (addr \<Rightarrow> RequestState) \<Rightarrow> addr list \<Rightarrow> nat" where
  "batch_size C h b = (\<Sum>a\<leftarrow>b. length (data (h a)) + SIZE_OVERHEAD C)"

definition fits :: "'st config \<Rightarrow> (addr \<Rightarrow> RequestState) \<Rightarrow> addr \<Rightarrow> bool" where
  "fits C h a \<longleftrightarrow> length (data (h a)) + SIZE_OVERHEAD C \<le> MAXIMUM_SIZE C"

text \<open>Successive calls of \<open>get\<close> until the queue is empty, collecting the batches;
  \<open>None\<close> when a call throws.\<close>

function drain :: "'st config \<Rightarrow> 'st MessagePacker \<Rightarrow> addr list list option" where
  "drain C p =
     (if queue p = [] then Some []
      else (case get C p of
              (Returns (Some (b, d)), p') \<Rightarrow> map_option ((#) b) (drain C p')
            | _ \<Rightarrow> None))"
  by pat_completeness auto

text \<open>The entries of a batch written to the buffer one after the other, in order.\<close>

definition frame_entries :: "'st config \<Rightarrow> addr list \<Rightarrow> 'st get_vars \<Rightarrow> 'st get_vars" where
  "frame_entries C b v = foldl (\<lambda>v' a. accept C a v') v b"

section \<open>pseudoCancellable\<close>

text \<open>The closure of \<open>pseudoCancellable(promise)\<close>: the wrapped promise, whether its
  \<open>then\<close> callback has run, the flag \<open>canceled\<close>, the variable \<open>rejectFn\<close> (the
  executor of the new promise has set it to \<open>reject\<close> by the time the function returns)
  and the new promise, the one the waiter awaits.\<close>

datatype reject_fn = Noop | Reject_newPromise

record 'a pseudo =
  wrapped :: "'a promise_state"
  reacted :: bool
  canceled :: bool
  rejectFn :: reject_fn
  newPromise :: "'a promise_state"

definition pseudoCancellable :: "'a promise_state \<Rightarrow> 'a pseudo" where
  "pseudoCancellable p =
     \<lparr>wrapped = p, reacted = False, canceled = False, rejectFn = Reject_newPromise,
      newPromise = Pending\<rparr>"

definition cancel :: "'a pseudo \<Rightarrow> 'a pseudo" where
  "cancel s =
     (let s1 = s\<lparr>canceled := True\<rparr>
      in case rejectFn s1 of
           Noop \<Rightarrow> s1
         | Reject_newPromise \<Rightarrow> s1\<lparr>newPromise := promise_reject Cancellation (newPromise s1)\<rparr>)"

text \<open>The callbacks given to \<open>promise.then\<close>: one of them runs, once, after the wrapped
  promise has settled.\<close>

definition react :: "'a pseudo \<Rightarrow> 'a pseudo" where
  "react s =
     (if reacted s then s
      else case wrapped s of
             Pending \<Rightarrow> s
           | Fulfilled result \<Rightarrow>
               (let s1 = s\<lparr>reacted := True\<rparr>
                in if \<not> canceled s1
                   then s1\<lparr>newPromise := promise_resolve result (newPromise s1),
                           rejectFn := Noop\<rparr>
                   else s1)
           | Rejected e \<Rightarrow>
               (let s1 = s\<lparr>reacted := True\<rparr>
                in if \<not> canceled s1
                   then s1\<lparr>newPromise := promise_reject e (newPromise s1)\<rparr>
                   else s1))"

text \<open>What can happen to a pseudo-cancellable: the underlying operation fulfils or rejects
  the wrapped promise, the job queue runs the callback, somebody calls \<open>cancel\<close>.\<close>

datatype 'a pseudo_event = Fulfil 'a | Fail js_error | React | Cancel

fun pseudo_step :: "'a pseudo_event \<Rightarrow> 'a pseudo \<Rightarrow> 'a pseudo" where
  "pseudo_step (Fulfil v) s = s\<lparr>wrapped := promise_resolve v (wrapped s)\<rparr>"
| "pseudo_step (Fail e) s = s\<lparr>wrapped := promise_reject e (wrapped s)\<rparr>"
| "pseudo_step React s = react s"
| "pseudo_step Cancel s = cancel s"

definition pseudo_run :: "'a pseudo_event list \<Rightarrow> 'a pseudo \<Rightarrow> 'a pseudo" where
  "pseudo_run evs s = foldl (\<lambda>s' e. pseudo_step e s') s evs"

section \<open>Connection\<close>

text \<open>The socket is a collaborator: its operations are parameters, each giving the error it
  throws, if any, and the socket it leaves.\<close>

datatype conn_log = Log_debug string | Log_info string | Log_error string

record 'sock socket_ops =
  sock_connect :: "'sock \<Rightarrow> js_error option \<times> 'sock"
  sock_write :: "bytes \<Rightarrow> 'sock \<Rightarrow> js_error option \<times> 'sock"
  sock_close :: "'sock \<Rightarrow> js_error option \<times> 'sock"

text \<open>The fields of a Connection that \<open>connect\<close>, \<open>disconnect\<close> and \<open>recv\<close> use. The
  constructor assigns neither \<open>sendCancel\<close> nor \<open>recvCancel\<close>: they are \<open>undefined\<close>
  until the loops assign them.\<close>

record 'sock Connection =
  connected :: bool
  sendCancel :: "bytes option pseudo option"
  recvCancel :: "bytes option pseudo option"
  socket :: 'sock
  conn_log :: "conn_log list"

definition Connection_constructor :: "'sock \<Rightarrow> 'sock Connection" where
  "Connection_constructor sock =
     \<lparr>connected = False, sendCancel = None, recvCancel = None, socket = sock, conn_log = []\<rparr>"

text \<open>\<open>connect\<close>, with the codec's tag as an argument (\<open>None\<close> when the codec has none).
  Started from \<open>connect\<close>, each loop runs up to its first \<open>await\<close>, which is after it has
  stored a fresh pseudo-cancellable of a pending promise.\<close>

definition connect ::
    "'sock socket_ops \<Rightarrow> bytes option \<Rightarrow> 'sock Connection \<Rightarrow> unit outcome \<times> 'sock Connection" where
  "connect ops tag c =
     (let c1 = c\<lparr>conn_log := conn_log c @ [Log_debug ''Connecting'']\<rparr> in
      case sock_connect ops (socket c1) of
        (Some e, sk) \<Rightarrow> (Throws e, c1\<lparr>socket := sk\<rparr>)
      | (None, sk) \<Rightarrow>
          (let c2 = c1\<lparr>socket := sk,
                       conn_log := conn_log c1 @ [Log_debug ''Finished connecting'']\<rparr>;
               (err, sk') = (case tag of None \<Rightarrow> (None, socket c2)
                             | Some t \<Rightarrow> sock_write ops t (socket c2))
           in case err of
                Some e \<Rightarrow> (Throws e, c2\<lparr>socket := sk'\<rparr>)
              | None \<Rightarrow>
                  (Returns (),
                   c2\<lparr>socket := sk', connected := True,
                      sendCancel := Some (pseudoCancellable Pending),
                      recvCancel := Some (pseudoCancellable Pending)\<rparr>)))"

text \<open>\<open>_cancelLoops\<close> calls \<open>cancel\<close> on \<open>recvCancel\<close>, then on \<open>sendCancel\<close>; a call on
  \<open>undefined\<close> throws a TypeError.\<close>

definition cancelLoops :: "'sock Connection \<Rightarrow> js_error option \<times> 'sock Connection" where
  "cancelLoops c =
     (case recvCancel c of
        None \<Rightarrow> (Some (TypeError ''Cannot read properties of undefined (reading cancel)''), c)
      | Some r \<Rightarrow>
          (let c1 = c\<lparr>recvCancel := Some (cancel r)\<rparr>
           in case sendCancel c1 of
                None \<Rightarrow>
                  (Some (TypeError ''Cannot read properties of undefined (reading cancel)''), c1)
              | Some s \<Rightarrow> (None, c1\<lparr>sendCancel := Some (cancel s)\<rparr>)))"

definition disconnect ::
    "'sock socket_ops \<Rightarrow> 'sock Connection \<Rightarrow> unit outcome \<times> 'sock Connection" where
  "disconnect ops c =
     (case cancelLoops (c\<lparr>connected := False\<rparr>) of
        (Some e, c1) \<Rightarrow> (Throws e, c1)
      | (None, c1) \<Rightarrow>
          (case sock_close ops (socket c1) of
             (None, sk) \<Rightarrow> (Returns (), c1\<lparr>socket := sk\<rparr>)
           | (Some e, sk) \<Rightarrow>
               (Returns (),
                c1\<lparr>socket := sk,
                   conn_log := conn_log c1 @
                     [Log_error ''error while closing socket connection'']\<rparr>)))"

text \<open>\<open>recv\<close>. Between two tests of \<open>_connected\<close> the call waits for \<open>_recvArray.pop()\<close>,
  and other tasks run meanwhile; the list gives, for each pop in turn, the value it yields
  (\<open>None\<close> for \<open>undefined\<close>) and the value of \<open>_connected\<close> when the call resumes. When
  the list runs out the call is still waiting.\<close>

fun recv_loop :: "bool \<Rightarrow> (bytes option \<times> bool) list \<Rightarrow> bytes outcome" where
  "recv_loop conn [] = (if conn then Awaiting else Throws (Error ''Not connected''))"
| "recv_loop conn ((result, conn') # env) =
     (if conn then
        (case result of
           Some payload \<Rightarrow> if payload \<noteq> [] then Returns payload else recv_loop conn' env
         | None \<Rightarrow> recv_loop conn' env)
      else Throws (Error ''Not connected''))"

definition recv :: "'sock Connection \<Rightarrow> (bytes option \<times> bool) list \<Rightarrow> bytes outcome" where
  "recv c env = recv_loop (connected c) env"

section \<open>Concrete sessions, requests and sockets\<close>

text \<open>A session for the concrete runs: it numbers the messages from a counter and frames a
  payload as the message number and the payload length, four bytes each, followed by the
  payload.\<close>

definition counter_session :: "nat \<Rightarrow> bytes \<Rightarrow> bool \<Rightarrow> int option \<Rightarrow> int \<times> bytes \<times> nat" where
  "counter_session n payload contentRelated afterId =
     (int n, writeUInt32LE (of_nat n) @ writeUInt32LE (of_nat (length payload)) @ payload, Suc n)"

text \<open>The limits of the scenario of three entries of ten bytes: 25 bytes to a packet, 4 bytes
  of overhead to an entry; the session is left open.\<close>

definition scenario_limits ::
    "('st \<Rightarrow> bytes \<Rightarrow> bool \<Rightarrow> int option \<Rightarrow> int \<times> bytes \<times> 'st) \<Rightarrow> 'st config" where
  "scenario_limits w =
     \<lparr>MAXIMUM_SIZE = 25, MAXIMUM_LENGTH = 100, CONSTRUCTOR_ID = 0x73f1f8dc,
      SIZE_OVERHEAD = 4, writeDataAsMessage = w\<rparr>"

definition scenario_config :: "nat config" where
  "scenario_config = scenario_limits counter_session"

text \<open>Limits under which a hundred and one small entries fit into one packet.\<close>

definition wide_config :: "nat config" where
  "wide_config =
     \<lparr>MAXIMUM_SIZE = 1044448, MAXIMUM_LENGTH = 100, CONSTRUCTOR_ID = 0x73f1f8dc,
      SIZE_OVERHEAD = 12, writeDataAsMessage = counter_session\<rparr>"

definition ten_bytes :: bytes where
  "ten_bytes = [0, 0, 0, 0, 0, 0, 0, 0, 0, 0]"

text \<open>A store in which every address holds a fresh request of ten bytes.\<close>

definition scenario_heap :: "addr \<Rightarrow> RequestState" where
  "scenario_heap = (\<lambda>a. RequestState_constructor
      \<lparr>classType = ''request'', className = Some ''Ping'', constructor_name = ''Ping''\<rparr>
      ten_bytes None)"

definition scenario_packer :: "nat MessagePacker" where
  "scenario_packer = extend_states [0, 1, 2] (MessagePacker_constructor scenario_heap 0)"

text \<open>The same store with a request of thirty bytes at address 0.\<close>

definition oversized_heap :: "addr \<Rightarrow> RequestState" where
  "oversized_heap = scenario_heap
     (0 := RequestState_constructor
        \<lparr>classType = ''request'', className = Some ''SaveFilePart'',
         constructor_name = ''SaveFilePart''\<rparr>
        (replicate 30 0) None)"

definition oversized_packer :: "nat MessagePacker" where
  "oversized_packer = extend_states [0, 1] (MessagePacker_constructor oversized_heap 0)"

text \<open>A socket that never fails and records the calls it receives.\<close>

datatype sock_call = Sock_connect | Sock_write bytes | Sock_close

definition recording_socket :: "sock_call list socket_ops" where
  "recording_socket =
     \<lparr>sock_connect = (\<lambda>sk. (None, sk @ [Sock_connect])),
      sock_write = (\<lambda>b sk. (None, sk @ [Sock_write b])),
      sock_close = (\<lambda>sk. (None, sk @ [Sock_close]))\<rparr>"

definition started_connection :: "sock_call list Connection" where
  "started_connection = snd (connect recording_socket None (Connection_constructor []))"

section \<open>The loop of get\<close>

lemma get_vars_init_simps [simp]:
  "v_heap (get_vars_init p) = heap p" "v_state (get_vars_init p) = state p"
  "v_log (get_vars_init p) = log p" "buffer (get_vars_init p) = []"
  "batch (get_vars_init p) = []" "size_v (get_vars_init p) = 0"
  by (simp_all add: get_vars_init_def)

lemma batch_size_cong:
  "(\<And>x. data (h' x) = data (h x)) \<Longrightarrow> batch_size C h' b = batch_size C h b"
  by (simp add: batch_size_def)

lemma accept_batch [simp]: "batch (accept C a v) = batch v @ [a]"
  by (simp add: accept_def Let_def split: prod.splits)

lemma accept_size [simp]: "size_v (accept C a v) = size_v v"
  by (simp add: accept_def Let_def split: prod.splits)

lemma accept_data [simp]: "data (v_heap (accept C a v) x) = data (v_heap v x)"
  by (simp add: accept_def Let_def split: prod.splits)

lemma get_loop_data:
  "get_loop C q v = (ex, q', v') \<Longrightarrow> data (v_heap v' x) = data (v_heap v x)"
proof (induction q arbitrary: v)
  case Nil
  then show ?case by simp
next
  case (Cons a q)
  then show ?case
    by (fastforce simp: Let_def split: if_splits)
qed

lemma get_loop_split:
  "get_loop C q v = (ex, q', v') \<Longrightarrow>
     \<exists>taken. batch v' = batch v @ taken \<and>
       (case ex of None \<Rightarrow> taken @ q' = q | Some e \<Rightarrow> \<exists>a. taken @ a # q' = q)"
proof (induction q arbitrary: v)
  case Nil
  then show ?case by simp
next
  case (Cons a q)
  let ?v1 = "v\<lparr>size_v := size_v v + (length (data (v_heap v a)) + SIZE_OVERHEAD C)\<rparr>"
  show ?case
  proof (cases "length (batch v) \<le> MAXIMUM_LENGTH C \<and> size_v ?v1 \<le> MAXIMUM_SIZE C")
    case True
    then have "get_loop C q (accept C a ?v1) = (ex, q', v')"
      using Cons.prems by (simp add: Let_def)
    from Cons.IH [OF this] obtain taken where
      t: "batch v' = batch (accept C a ?v1) @ taken"
         "case ex of None \<Rightarrow> taken @ q' = q | Some e \<Rightarrow> \<exists>a. taken @ a # q' = q"
      by blast
    have "batch v' = batch v @ (a # taken)" using t(1) by simp
    moreover have "case ex of None \<Rightarrow> (a # taken) @ q' = a # q
                   | Some e \<Rightarrow> \<exists>b. (a # taken) @ b # q' = a # q"
      using t(2) by (cases ex) auto
    ultimately show ?thesis by blast
  next
    case False
    then show ?thesis
      using Cons.prems by (auto simp: Let_def split: if_splits)
  qed
qed

lemma get_loop_size:
  "get_loop C q v = (ex, q', v') \<Longrightarrow> batch_size C (v_heap v) (batch v) \<le> size_v v \<Longrightarrow>
   size_v v \<le> MAXIMUM_SIZE C \<Longrightarrow> batch_size C (v_heap v') (batch v') \<le> MAXIMUM_SIZE C"
proof (induction q arbitrary: v)
  case Nil
  then show ?case by simp
next
  case (Cons a q)
  let ?v1 = "v\<lparr>size_v := size_v v + (length (data (v_heap v a)) + SIZE_OVERHEAD C)\<rparr>"
  show ?case
  proof (cases "length (batch v) \<le> MAXIMUM_LENGTH C \<and> size_v ?v1 \<le> MAXIMUM_SIZE C")
    case True
    then have run: "get_loop C q (accept C a ?v1) = (ex, q', v')"
      using Cons.prems(1) by (simp add: Let_def)
    have "batch_size C (v_heap (accept C a ?v1)) (batch (accept C a ?v1)) =
          batch_size C (v_heap v) (batch v @ [a])"
      by (simp add: batch_size_cong [of "v_heap (accept C a ?v1)" "v_heap v"])
    also have "\<dots> = batch_size C (v_heap v) (batch v) +
                      (length (data (v_heap v a)) + SIZE_OVERHEAD C)"
      by (simp add: batch_size_def)
    also have "\<dots> \<le> size_v (accept C a ?v1)"
      using Cons.prems(2) by simp
    finally have "batch_size C (v_heap (accept C a ?v1)) (batch (accept C a ?v1))
                  \<le> size_v (accept C a ?v1)" .
    moreover have "size_v (accept C a ?v1) \<le> MAXIMUM_SIZE C" using True by simp
    ultimately show ?thesis using Cons.IH [OF run] by blast
  next
    case False
    then have "batch v' = batch v \<and> (\<forall>x. data (v_heap v' x) = data (v_heap v x))"
      using Cons.prems(1) by (auto simp: Let_def split: if_splits)
    then have "batch_size C (v_heap v') (batch v') = batch_size C (v_heap v) (batch v)"
      by (simp add: batch_size_cong [of "v_heap v'" "v_heap v"])
    then show ?thesis using Cons.prems(2,3) by simp
  qed
qed

lemma get_loop_length:
  "get_loop C q v = (ex, q', v') \<Longrightarrow> length (batch v) \<le> Suc (MAXIMUM_LENGTH C) \<Longrightarrow>
   length (batch v') \<le> Suc (MAXIMUM_LENGTH C)"
proof (induction q arbitrary: v)
  case Nil
  then show ?case by simp
next
  case (Cons a q)
  then show ?case
    by (fastforce simp: Let_def split: if_splits)
qed

lemma set_containerId_data [simp]: "data (set_containerId cid b h x) = data (h x)"
  unfolding set_containerId_def
  by (induction b arbitrary: h) simp_all

lemmas scenario_defs = scenario_packer_def scenario_heap_def scenario_config_def
  scenario_limits_def ten_bytes_def
  counter_session_def MessagePacker_constructor_def RequestState_constructor_def append_state_def
  get_def accept_def Let_def writeUInt32LE_def writeInt32LE_def request_name_def set_containerId_def

lemma get_loop_shorter:
  "get_loop C q v = (ex, q', v') \<Longrightarrow> length q' \<le> length q"
  using get_loop_split [of C q v ex q' v'] by (cases ex) auto

lemma get_loop_consumes:
  assumes "get_loop C q v = (ex, q', v')" "q \<noteq> []" "batch v = []"
  shows "length q' < length q"
proof -
  obtain a q0 where q: "q = a # q0" using assms(2) by (cases q) auto
  let ?v1 = "v\<lparr>size_v := size_v v + (length (data (v_heap v a)) + SIZE_OVERHEAD C)\<rparr>"
  show ?thesis
  proof (cases "size_v ?v1 \<le> MAXIMUM_SIZE C")
    case True
    then have "get_loop C q0 (accept C a ?v1) = (ex, q', v')"
      using assms(1,3) q by (simp add: Let_def)
    then show ?thesis using get_loop_shorter q by fastforce
  next
    case False
    then show ?thesis using assms(1,3) q by (simp add: Let_def)
  qed
qed

lemma get_queue_shrinks:
  assumes "get C p = (r, p')" "queue p \<noteq> []"
  shows "length (queue p') < length (queue p)"
proof -
  obtain ex q' v where run: "get_loop C (queue p) (get_vars_init p) = (ex, q', v)"
    by (cases "get_loop C (queue p) (get_vars_init p)") auto
  have "length q' < length (queue p)"
    using get_loop_consumes [OF run assms(2)] by simp
  moreover have "queue p' = q'"
    using assms run
    by (auto simp: get_def get_vars_init_def Let_def split: if_splits option.splits sum.splits prod.splits)
  ultimately show ?thesis by simp
qed

termination drain
  by (relation "measure (\<lambda>(C, p). length (queue p))") (auto dest: get_queue_shrinks [OF sym])

lemma get_loop_fits:
  "get_loop C q v = (ex, q', v') \<Longrightarrow> \<forall>a\<in>set q. fits C (v_heap v) a \<Longrightarrow>
   (batch v = [] \<longrightarrow> size_v v = 0) \<Longrightarrow> ex = None"
proof (induction q arbitrary: v)
  case Nil
  then show ?case by simp
next
  case (Cons a q)
  let ?v1 = "v\<lparr>size_v := size_v v + (length (data (v_heap v a)) + SIZE_OVERHEAD C)\<rparr>"
  show ?case
  proof (cases "length (batch v) \<le> MAXIMUM_LENGTH C \<and> size_v ?v1 \<le> MAXIMUM_SIZE C")
    case True
    then have run: "get_loop C q (accept C a ?v1) = (ex, q', v')"
      using Cons.prems(1) by (simp add: Let_def)
    have "\<forall>x\<in>set q. fits C (v_heap (accept C a ?v1)) x"
      using Cons.prems(2) by (simp add: fits_def)
    then show ?thesis using Cons.IH [OF run] by simp
  next
    case False
    then show ?thesis
      using Cons.prems by (auto simp: Let_def fits_def split: if_splits)
  qed
qed

lemma get_fifo_step:
  assumes nonempty: "queue p \<noteq> []"
    and fit: "\<forall>a\<in>set (queue p). fits C (heap p) a"
    and len: "MAXIMUM_LENGTH C + 1 < 2 ^ 31"
  shows "\<exists>b d p'. get C p = (Returns (Some (b, d)), p') \<and> b \<noteq> [] \<and>
           b @ queue p' = queue p \<and> (\<forall>x. data (heap p' x) = data (heap p x))"
proof -
  obtain ex q' v where run: "get_loop C (queue p) (get_vars_init p) = (ex, q', v)"
    by (cases "get_loop C (queue p) (get_vars_init p)") auto
  have ex: "ex = None"
    using get_loop_fits [OF run] fit by simp
  have split: "batch v @ q' = queue p"
    using get_loop_split [OF run] ex by simp
  have "length q' < length (queue p)"
    using get_loop_consumes [OF run nonempty] by simp
  then have ne: "batch v \<noteq> []" using split by auto
  have "length (batch v) \<le> Suc (MAXIMUM_LENGTH C)"
    using get_loop_length [OF run] by simp
  then have "int (length (batch v)) < 2 ^ 31" using len by simp
  then obtain count where count: "writeInt32LE (int (length (batch v))) = Inr count"
    by (simp add: writeInt32LE_def)
  have dat: "\<And>x. data (v_heap v x) = data (heap p x)"
    using get_loop_data [OF run] by simp
  show ?thesis
  proof (cases "length (batch v) > 1")
    case True
    obtain cid written s' where
      w: "writeDataAsMessage C (v_state v)
            (writeUInt32LE (CONSTRUCTOR_ID C) @ count @ buffer v) False None = (cid, written, s')"
      by (metis prod_cases3)
    have "get C p = (Returns (Some (batch v, written)),
             p\<lparr>heap := set_containerId cid (batch v) (v_heap v), state := s',
               queue := q', log := v_log v\<rparr>)"
      using nonempty run ex ne True count w by (simp add: get_def get_vars_init_def Let_def)
    then show ?thesis using ne split dat by simp
  next
    case False
    have "get C p = (Returns (Some (batch v, buffer v)),
             p\<lparr>heap := v_heap v, state := v_state v, queue := q', log := v_log v\<rparr>)"
      using nonempty run ex ne False by (simp add: get_def get_vars_init_def Let_def)
    then show ?thesis using ne split dat by simp
  qed
qed

lemma drain_fifo:
  "\<forall>a\<in>set (queue p). fits C (heap p) a \<Longrightarrow> MAXIMUM_LENGTH C + 1 < 2 ^ 31 \<Longrightarrow>
   \<exists>bs. drain C p = Some bs \<and> concat bs = queue p \<and> [] \<notin> set bs"
proof (induction "length (queue p)" arbitrary: p rule: less_induct)
  case less
  show ?case
  proof (cases "queue p = []")
    case True
    then show ?thesis by simp
  next
    case False
    from get_fifo_step [OF False less.prems] obtain b d p' where
      g: "get C p = (Returns (Some (b, d)), p')" and ne: "b \<noteq> []"
      and sp: "b @ queue p' = queue p" and dat: "\<And>x. data (heap p' x) = data (heap p x)"
      by blast
    have shorter: "length (queue p') < length (queue p)"
      using get_queue_shrinks [OF g False] .
    have "set (queue p') \<subseteq> set (queue p)"
      using sp by (metis Un_upper2 set_append)
    then have "\<forall>a\<in>set (queue p'). fits C (heap p') a"
      using less.prems(1) dat by (auto simp: fits_def)
    from less.hyps [OF shorter this less.prems(2)] obtain bs where
      bs: "drain C p' = Some bs" "concat bs = queue p'" "[] \<notin> set bs"
      by blast
    have "drain C p = Some (b # bs)"
      using False g bs(1) by (subst drain.simps) simp
    then show ?thesis using bs sp ne by auto
  qed
qed

lemma extend_states_queue [simp]: "queue (extend_states xs p) = queue p @ xs"
  by (induction xs arbitrary: p) (simp_all add: append_state_def)

lemma extend_states_heap [simp]: "heap (extend_states xs p) = heap p"
  by (induction xs arbitrary: p) (simp_all add: append_state_def)

lemma get_pushes_back:
  assumes "get C p = (Returns (Some (b, d)), p')"
  shows "b @ queue p' = queue p"
proof -
  obtain ex q' v where run: "get_loop C (queue p) (get_vars_init p) = (ex, q', v)"
    by (cases "get_loop C (queue p) (get_vars_init p)") auto
  have "ex = None \<and> b = batch v \<and> queue p' = q'"
    using assms run
    by (auto simp: get_def get_vars_init_def Let_def split: if_splits option.splits sum.splits prod.splits)
  then show ?thesis using get_loop_split [OF run] by simp
qed

section \<open>Size of a batch\<close>

text \<open>Claim C1: whenever \<open>get\<close> returns a batch, the sum over its entries of payload
  length plus \<open>SIZE_OVERHEAD\<close> is at most \<open>MAXIMUM_SIZE\<close>.\<close>

theorem get_size_invariant:
  "get C p = (Returns (Some (b, d)), p') \<Longrightarrow>
   (\<Sum>a\<leftarrow>b. length (data (heap p' a)) + SIZE_OVERHEAD C) \<le> MAXIMUM_SIZE C"
proof -
  assume g: "get C p = (Returns (Some (b, d)), p')"
  obtain ex q' v where run: "get_loop C (queue p) (get_vars_init p) = (ex, q', v)"
    by (cases "get_loop C (queue p) (get_vars_init p)") auto
  have "batch_size C (v_heap v) (batch v) \<le> MAXIMUM_SIZE C"
    by (rule get_loop_size [OF run]) (simp_all add: batch_size_def)
  moreover have "b = batch v \<and> (\<forall>x. data (heap p' x) = data (v_heap v x))"
    using g run
    by (auto simp: get_def get_vars_init_def Let_def split: if_splits option.splits sum.splits prod.splits)
  ultimately show ?thesis
    by (simp add: batch_size_def)
qed

theorem get_size_invariant_witness:
  "get scenario_config scenario_packer =
     (Returns (Some ([0], [0, 0, 0, 0, 10, 0, 0, 0] @ ten_bytes)),
      snd (get scenario_config scenario_packer)) \<and>
   (\<Sum>a\<leftarrow>[0]. length (data (heap (snd (get scenario_config scenario_packer)) a)) +
      SIZE_OVERHEAD scenario_config) \<le> MAXIMUM_SIZE scenario_config"
proof -
  have g: "get scenario_config scenario_packer =
     (Returns (Some ([0], [0, 0, 0, 0, 10, 0, 0, 0] @ ten_bytes)),
      snd (get scenario_config scenario_packer))"
    by (rule prod_eqI) (simp_all add: scenario_defs)
  show ?thesis using g get_size_invariant [OF g] by simp
qed

section \<open>Number of entries of a batch\<close>

lemma get_loop_takes_all:
  "length (batch v) + length q \<le> Suc (MAXIMUM_LENGTH C) \<Longrightarrow>
   size_v v + batch_size C (v_heap v) q \<le> MAXIMUM_SIZE C \<Longrightarrow>
   \<exists>v'. get_loop C q v = (None, [], v') \<and> batch v' = batch v @ q"
proof (induction q arbitrary: v)
  case Nil
  then show ?case by simp
next
  case (Cons a q)
  let ?v1 = "v\<lparr>size_v := size_v v + (length (data (v_heap v a)) + SIZE_OVERHEAD C)\<rparr>"
  have sz: "size_v ?v1 + batch_size C (v_heap v) q \<le> MAXIMUM_SIZE C"
    using Cons.prems(2) by (simp add: batch_size_def)
  have "batch_size C (v_heap (accept C a ?v1)) q = batch_size C (v_heap v) q"
    by (simp add: batch_size_cong [of "v_heap (accept C a ?v1)" "v_heap v"])
  then have "size_v (accept C a ?v1) + batch_size C (v_heap (accept C a ?v1)) q \<le> MAXIMUM_SIZE C"
    using sz by simp
  moreover have "length (batch (accept C a ?v1)) + length q \<le> Suc (MAXIMUM_LENGTH C)"
    using Cons.prems(1) by simp
  ultimately obtain v' where
    "get_loop C q (accept C a ?v1) = (None, [], v')" "batch v' = batch (accept C a ?v1) @ q"
    using Cons.IH by blast
  moreover have "length (batch v) \<le> MAXIMUM_LENGTH C" using Cons.prems(1) by simp
  moreover have "size_v ?v1 \<le> MAXIMUM_SIZE C" using sz by simp
  ultimately show ?case by (simp add: Let_def)
qed

lemma get_takes_all:
  assumes "length (queue p) \<le> Suc (MAXIMUM_LENGTH C)"
    and "batch_size C (heap p) (queue p) \<le> MAXIMUM_SIZE C"
    and "MAXIMUM_LENGTH C + 1 < 2 ^ 31"
  shows "returned_batch (fst (get C p)) = queue p"
proof (cases "queue p = []")
  case True
  then show ?thesis by (simp add: get_def returned_batch_def)
next
  case False
  obtain v where run: "get_loop C (queue p) (get_vars_init p) = (None, [], v)" and b: "batch v = queue p"
    using get_loop_takes_all [of "get_vars_init p" "queue p" C] assms(1,2) by auto
  have "int (length (queue p)) < 2 ^ 31" using assms(1,3) by simp
  then obtain count where "writeInt32LE (int (length (queue p))) = Inr count"
    by (simp add: writeInt32LE_def)
  then show ?thesis
    using False run b
    by (simp add: get_def get_vars_init_def returned_batch_def Let_def split: prod.splits)
qed

text \<open>Claim C2 says that a batch never holds more than \<open>MAXIMUM_LENGTH\<close> entries. The
  loop goes on while \<open>batch.length <= MAXIMUM_LENGTH\<close>, so it still takes an entry when the
  batch is full: with a limit of 100 and 101 small entries in the queue, \<open>get\<close> returns all
  101 in one batch.\<close>

theorem get_exceeds_maximum_length:
  "MAXIMUM_LENGTH wide_config = 100 \<and>
   length (returned_batch (fst (get wide_config
      (extend_states [0..<101] (MessagePacker_constructor scenario_heap 0))))) = 101"
proof -
  let ?p = "extend_states [0..<101] (MessagePacker_constructor scenario_heap (0::nat))"
  have q: "queue ?p = [0..<101]" and h: "heap ?p = scenario_heap"
    by (simp_all add: MessagePacker_constructor_def)
  have m: "MAXIMUM_LENGTH wide_config = 100" "MAXIMUM_SIZE wide_config = 1044448"
    "SIZE_OVERHEAD wide_config = 12"
    by (simp_all add: wide_config_def)
  have "batch_size wide_config scenario_heap [0..<101] = 101 * 22"
    by (simp add: batch_size_def scenario_heap_def RequestState_constructor_def ten_bytes_def
        m sum_list_triv)
  then have total: "batch_size wide_config (heap ?p) (queue ?p) \<le> MAXIMUM_SIZE wide_config"
    by (simp only: q h m)
  have count: "length (queue ?p) \<le> Suc (MAXIMUM_LENGTH wide_config)"
    by (simp only: q m) simp
  have "MAXIMUM_LENGTH wide_config + 1 < 2 ^ 31"
    by (simp only: m) simp
  with count total have "returned_batch (fst (get wide_config ?p)) = queue ?p"
    by (rule get_takes_all)
  then have "length (returned_batch (fst (get wide_config ?p))) = 101"
    by (simp only: q) simp
  then show ?thesis using m(1) by simp
qed

section \<open>rejectAll\<close>

lemma extend_states_pending [simp]: "pendingStates (extend_states xs p) = pendingStates p"
  by (induction xs arbitrary: p) (simp_all add: append_state_def)

lemma get_pending [simp]: "pendingStates (snd (get C p)) = pendingStates p"
  by (simp add: get_def Let_def split: prod.splits option.splits sum.splits)

lemma rejectAll_no_pending: "pendingStates p = [] \<Longrightarrow> rejectAll p = p"
  by (simp add: rejectAll_def)

text \<open>Claim C3 says that \<open>rejectAll\<close> rejects every request the packer still refers to.
  Nothing ever enters \<open>_pendingStates\<close>, so \<open>rejectAll\<close> changes nothing, whatever has been
  appended and whether or not \<open>get\<close> has handed out a batch: a request still in the queue
  stays pending.\<close>

theorem rejectAll_rejects_nothing:
  "rejectAll (extend_states xs (MessagePacker_constructor h s))
     = extend_states xs (MessagePacker_constructor h s) \<and>
   rejectAll (snd (get C (extend_states xs (MessagePacker_constructor h s))))
     = snd (get C (extend_states xs (MessagePacker_constructor h s))) \<and>
   queue (rejectAll (append_state 0 (MessagePacker_constructor scenario_heap s))) = [0] \<and>
   promise (heap (rejectAll (append_state 0 (MessagePacker_constructor scenario_heap s))) 0)
     = Pending"
proof -
  have "pendingStates (extend_states xs (MessagePacker_constructor h s)) = []"
    by (simp add: MessagePacker_constructor_def)
  moreover have "pendingStates (snd (get C (extend_states xs (MessagePacker_constructor h s)))) = []"
    by (simp add: MessagePacker_constructor_def)
  moreover have "queue (rejectAll (append_state 0 (MessagePacker_constructor scenario_heap s))) = [0]"
    by (simp add: rejectAll_def append_state_def MessagePacker_constructor_def)
  moreover have "promise (heap (rejectAll (append_state 0 (MessagePacker_constructor scenario_heap s))) 0)
     = Pending"
    by (simp add: rejectAll_def append_state_def MessagePacker_constructor_def scenario_heap_def
        RequestState_constructor_def)
  ultimately show ?thesis by (simp add: rejectAll_no_pending)
qed

section \<open>An entry too big for a packet\<close>

lemma get_oversized_head:
  assumes "queue p = a # q" and "\<not> fits C (heap p) a"
  shows "get C p =
     (Throws (TypeError ''state.promise.reject is not a function''),
      p\<lparr>queue := q,
        log := log p @
          [Warn_too_long (request_name (request (heap p a))) (length (data (heap p a)))]\<rparr>)"
proof -
  have "get_loop C (a # q) (get_vars_init p) =
     (Some (TypeError ''state.promise.reject is not a function''), q,
      (get_vars_init p)\<lparr>size_v := length (data (heap p a)) + SIZE_OVERHEAD C,
        v_log := log p @
          [Warn_too_long (request_name (request (heap p a))) (length (data (heap p a)))]\<rparr>)"
    using assms(2) by (simp add: fits_def Let_def)
  then show ?thesis
    using assms(1) by (simp add: get_def)
qed

text \<open>Claim C4 says that an entry too big for a packet has its own promise rejected and
  that the same call goes on to batch the entries behind it. With a request of thirty bytes
  ahead of one of ten and a limit of 25, the call of \<open>state.promise.reject\<close> throws: \<open>get\<close>
  fails with a TypeError, the big request is out of the queue with its promise still
  pending, and the small one is not batched.\<close>

theorem oversized_entry_throws:
  "fst (get scenario_config oversized_packer)
     = Throws (TypeError ''state.promise.reject is not a function'') \<and>
   promise (heap (snd (get scenario_config oversized_packer)) 0) = Pending \<and>
   queue (snd (get scenario_config oversized_packer)) = [1] \<and>
   msgId (heap (snd (get scenario_config oversized_packer)) 1) = None"
proof -
  have q: "queue oversized_packer = [0, 1]" and h: "heap oversized_packer = oversized_heap"
    by (simp_all add: oversized_packer_def MessagePacker_constructor_def append_state_def)
  have big: "\<not> fits scenario_config (heap oversized_packer) 0"
    by (simp add: h fits_def oversized_heap_def RequestState_constructor_def
        scenario_config_def scenario_limits_def)
  have "promise (oversized_heap 0) = Pending" "msgId (oversized_heap 1) = None"
    by (simp_all add: oversized_heap_def scenario_heap_def RequestState_constructor_def)
  then show ?thesis
    using get_oversized_head [OF q big] h by simp
qed

section \<open>Three entries of ten bytes\<close>

text \<open>Claim C5, as stated, has the first two of the three entries in the batch. The second
  entry would bring the size to 28, over the limit of 25, so it is not among them.\<close>

theorem scenario_two_entries_counterexample:
  "returned_batch (fst (get scenario_config scenario_packer)) \<noteq> [0, 1]"
  by (simp add: returned_batch_def scenario_defs)

text \<open>Claim C5, amended: with three entries of ten bytes, a limit of 25 and an overhead of 4,
  one call of \<open>get\<close> returns a batch of the first entry alone, its bytes being what the
  session wrote for that entry (no container), and leaves the second and third entries in
  the queue, in order. This holds for every session.\<close>

theorem scenario_first_entry_only:
  "returned_batch (fst (get (scenario_limits w)
      (extend_states [0, 1, 2] (MessagePacker_constructor scenario_heap s)))) = [0] \<and>
   returned_data (fst (get (scenario_limits w)
      (extend_states [0, 1, 2] (MessagePacker_constructor scenario_heap s))))
     = fst (snd (w s ten_bytes True None)) \<and>
   queue (snd (get (scenario_limits w)
      (extend_states [0, 1, 2] (MessagePacker_constructor scenario_heap s)))) = [1, 2]"
proof -
  obtain mid written s1 where w: "w s ten_bytes True None = (mid, written, s1)"
    by (metis prod_cases3)
  have len: "length ten_bytes = 10" by (simp add: ten_bytes_def)
  show ?thesis
    by (simp add: returned_batch_def returned_data_def scenario_limits_def scenario_heap_def
        MessagePacker_constructor_def RequestState_constructor_def append_state_def get_def
        accept_def Let_def w len)
qed

section \<open>Order of the entries\<close>

text \<open>Claim C6: when every appended entry is within the size limit on its own (and the
  limit on the number of entries is small enough for the count to be written as an int32),
  the batches of successive calls of \<open>get\<close>, concatenated, are the entries in the order
  they were appended, and no batch is empty; a batch and the queue \<open>get\<close> leaves always
  make up the queue it found, so an entry that overflows a batch is back at the front.\<close>

theorem fifo_order:
  assumes "\<forall>a\<in>set xs. fits C h a" and "MAXIMUM_LENGTH C + 1 < 2 ^ 31"
  shows "(\<exists>bs. drain C (extend_states xs (MessagePacker_constructor h s)) = Some bs \<and>
            concat bs = xs \<and> [] \<notin> set bs) \<and>
         (\<forall>p b d p'. get C p = (Returns (Some (b, d)), p') \<longrightarrow> b @ queue p' = queue p)"
proof -
  let ?p = "extend_states xs (MessagePacker_constructor h s)"
  have "queue ?p = xs" "heap ?p = h"
    by (simp_all add: MessagePacker_constructor_def)
  then show ?thesis
    using drain_fifo [of ?p C] assms get_pushes_back by auto
qed

theorem fifo_order_witness:
  "fits scenario_config scenario_heap 0 \<and> fits scenario_config scenario_heap 1 \<and>
   fits scenario_config scenario_heap 2 \<and>
   MAXIMUM_LENGTH scenario_config + 1 < 2 ^ 31 \<and>
   drain scenario_config (extend_states [0, 1, 2] (MessagePacker_constructor scenario_heap 0))
     = Some [[0], [1], [2]]"
  using fifo_order [of "[0, 1, 2]" scenario_config scenario_heap 0]
  by (simp add: fits_def scenario_defs)

section \<open>The container\<close>

lemma accept_size_update:
  "accept C a (v\<lparr>size_v := n\<rparr>) = (accept C a v)\<lparr>size_v := n\<rparr>"
  by (cases "after (v_heap v a)") (simp_all add: accept_def Let_def case_prod_beta)

lemma frame_entries_size_update:
  "frame_entries C b (v\<lparr>size_v := n\<rparr>) = (frame_entries C b v)\<lparr>size_v := n\<rparr>"
  unfolding frame_entries_def
  by (induction b arbitrary: v) (simp_all add: accept_size_update)

lemma frame_entries_Cons:
  "frame_entries C (a # b) v = frame_entries C b (accept C a v)"
  by (simp add: frame_entries_def)

lemma get_loop_frames:
  "get_loop C q v = (None, q', v') \<Longrightarrow>
   \<exists>taken. batch v' = batch v @ taken \<and>
      buffer v' = buffer (frame_entries C taken v) \<and>
      v_state v' = v_state (frame_entries C taken v) \<and>
      v_heap v' = v_heap (frame_entries C taken v)"
proof (induction q arbitrary: v)
  case Nil
  then have "v' = v" by simp
  then have "batch v' = batch v @ [] \<and> buffer v' = buffer (frame_entries C [] v) \<and>
      v_state v' = v_state (frame_entries C [] v) \<and> v_heap v' = v_heap (frame_entries C [] v)"
    by (simp add: frame_entries_def)
  then show ?case by blast
next
  case (Cons a q)
  let ?v1 = "v\<lparr>size_v := size_v v + (length (data (v_heap v a)) + SIZE_OVERHEAD C)\<rparr>"
  show ?case
  proof (cases "length (batch v) \<le> MAXIMUM_LENGTH C \<and> size_v ?v1 \<le> MAXIMUM_SIZE C")
    case True
    then have run: "get_loop C q (accept C a ?v1) = (None, q', v')"
      using Cons.prems by (simp add: Let_def)
    from Cons.IH [OF run] obtain taken where
      t: "batch v' = batch (accept C a ?v1) @ taken"
         "buffer v' = buffer (frame_entries C taken (accept C a ?v1))"
         "v_state v' = v_state (frame_entries C taken (accept C a ?v1))"
         "v_heap v' = v_heap (frame_entries C taken (accept C a ?v1))"
      by blast
    have "frame_entries C taken (accept C a ?v1) =
          (frame_entries C (a # taken) v)\<lparr>size_v := size_v ?v1\<rparr>"
      by (simp add: accept_size_update frame_entries_size_update frame_entries_Cons)
    then have "batch v' = batch v @ (a # taken) \<and>
      buffer v' = buffer (frame_entries C (a # taken) v) \<and>
      v_state v' = v_state (frame_entries C (a # taken) v) \<and>
      v_heap v' = v_heap (frame_entries C (a # taken) v)"
      using t by simp
    then show ?thesis by blast
  next
    case False
    then have "batch v' = batch v @ [] \<and> buffer v' = buffer (frame_entries C [] v) \<and>
      v_state v' = v_state (frame_entries C [] v) \<and> v_heap v' = v_heap (frame_entries C [] v)"
      using Cons.prems by (auto simp: Let_def frame_entries_def split: if_splits)
    then show ?thesis by blast
  qed
qed

lemma set_containerId_Cons:
  "set_containerId cid (a # b) h = set_containerId cid b (h(a := (h a)\<lparr>containerId := Some cid\<rparr>))"
  by (simp add: set_containerId_def)

lemma set_containerId_keeps:
  "containerId (h x) = Some cid \<Longrightarrow> containerId (set_containerId cid b h x) = Some cid"
  by (induction b arbitrary: h) (simp_all add: set_containerId_Cons, simp add: set_containerId_def)

lemma set_containerId_sets:
  "x \<in> set b \<Longrightarrow> containerId (set_containerId cid b h x) = Some cid"
proof (induction b arbitrary: h)
  case Nil
  then show ?case by simp
next
  case (Cons a b)
  show ?case
  proof (cases "x = a")
    case True
    then show ?thesis by (simp add: set_containerId_Cons set_containerId_keeps)
  next
    case False
    then show ?thesis using Cons by (simp add: set_containerId_Cons)
  qed
qed

lemmas wide_defs = wide_config_def scenario_packer_def scenario_heap_def ten_bytes_def
  counter_session_def MessagePacker_constructor_def RequestState_constructor_def append_state_def
  get_def accept_def Let_def writeUInt32LE_def writeInt32LE_def request_name_def
  set_containerId_def

text \<open>Claim C7, as stated, has the returned bytes begin with the constructor id and the
  count. The container is itself written as a message, so what comes first is whatever the
  session puts in front of a payload: with the counting session the first eight bytes are
  the container's message number and length, and the constructor id and the count are the
  eight bytes after them.\<close>

theorem container_header_counterexample:
  "returned_batch (fst (get wide_config scenario_packer)) = [0, 1, 2] \<and>
   take 8 (returned_data (fst (get wide_config scenario_packer)))
     \<noteq> writeUInt32LE (CONSTRUCTOR_ID wide_config) @ writeUInt32LE 3 \<and>
   take 8 (drop 8 (returned_data (fst (get wide_config scenario_packer))))
     = writeUInt32LE (CONSTRUCTOR_ID wide_config) @ writeUInt32LE 3"
  by (simp add: returned_batch_def returned_data_def wide_defs)

text \<open>Claim C7, amended: when \<open>get\<close> returns a batch of more than one entry, the payload it
  hands to the session is the constructor id and the entry count, four bytes each, followed
  by what the session wrote for the entries, one after the other in batch order; the bytes
  returned are the bytes the session writes for that payload, as a message that is not
  content-related and follows no other; and the id the session returns for it is the
  \<open>containerId\<close> of every entry of the batch.\<close>

theorem container_frame:
  assumes "get C p = (Returns (Some (b, d)), p')" and "length b > 1"
  shows "(let v = frame_entries C b (get_vars_init p);
              payload = writeUInt32LE (CONSTRUCTOR_ID C) @ writeUInt32LE (of_nat (length b)) @
                        buffer v;
              (cid, written, s') = writeDataAsMessage C (v_state v) payload False None
          in d = written \<and> state p' = s' \<and> (\<forall>a\<in>set b. containerId (heap p' a) = Some cid))"
proof -
  obtain ex q' v where run: "get_loop C (queue p) (get_vars_init p) = (ex, q', v)"
    by (cases "get_loop C (queue p) (get_vars_init p)") auto
  have ex: "ex = None" and b: "b = batch v"
    using assms(1) run
    by (auto simp: get_def get_vars_init_def Let_def
        split: if_splits option.splits sum.splits prod.splits)
  from get_loop_frames [OF run [unfolded ex]] have fr:
    "buffer v = buffer (frame_entries C b (get_vars_init p))"
    "v_state v = v_state (frame_entries C b (get_vars_init p))"
    "v_heap v = v_heap (frame_entries C b (get_vars_init p))"
    using b by (auto simp: get_vars_init_def)
  obtain count where count: "writeInt32LE (int (length b)) = Inr count"
    using assms run b ex
    by (cases "writeInt32LE (int (length b))")
       (auto simp: get_def get_vars_init_def Let_def split: if_splits prod.splits)
  then have count_eq: "count = writeUInt32LE (of_nat (length b))"
    by (auto simp: writeInt32LE_def split: if_splits)
  obtain cid written s' where
    w: "writeDataAsMessage C (v_state v)
          (writeUInt32LE (CONSTRUCTOR_ID C) @ count @ buffer v) False None = (cid, written, s')"
    by (metis prod_cases3)
  have "d = written \<and> state p' = s' \<and> heap p' = set_containerId cid b (v_heap v)"
    using assms run b ex count w
    by (auto simp: get_def get_vars_init_def Let_def split: if_splits)
  then show ?thesis
    using w fr count_eq by (simp add: Let_def set_containerId_sets)
qed

theorem container_frame_witness:
  "get wide_config scenario_packer =
     (Returns (Some ([0, 1, 2], returned_data (fst (get wide_config scenario_packer)))),
      snd (get wide_config scenario_packer)) \<and>
   length [0, 1, 2 :: addr] > 1 \<and>
   containerId (heap (snd (get wide_config scenario_packer)) 0) = Some 3 \<and>
   containerId (heap (snd (get wide_config scenario_packer)) 1) = Some 3 \<and>
   containerId (heap (snd (get wide_config scenario_packer)) 2) = Some 3"
proof -
  have g: "get wide_config scenario_packer =
     (Returns (Some ([0, 1, 2], returned_data (fst (get wide_config scenario_packer)))),
      snd (get wide_config scenario_packer))"
    by (rule prod_eqI) (simp_all add: returned_data_def wide_defs)
  have l: "length [0, 1, 2 :: addr] > 1" by simp
  show ?thesis
    using g container_frame [OF g l]
    by (simp add: frame_entries_def get_vars_init_def wide_defs)
qed

section \<open>Cancelling a pseudo-cancellable\<close>

lemma promise_reject_settled [simp]: "promise_reject e (Rejected e') = Rejected e'"
  by (simp add: promise_reject_def)

lemma promise_resolve_settled [simp]: "promise_resolve v (Rejected e') = Rejected e'"
  by (simp add: promise_resolve_def)

lemma pseudo_step_rejected:
  "newPromise s = Rejected e \<Longrightarrow> newPromise (pseudo_step ev s) = Rejected e"
  by (cases ev)
     (auto simp: react_def cancel_def Let_def split: promise_state.splits reject_fn.splits)

lemma pseudo_run_rejected:
  "newPromise s = Rejected e \<Longrightarrow> newPromise (pseudo_run evs s) = Rejected e"
  unfolding pseudo_run_def
  by (induction evs arbitrary: s) (simp_all add: pseudo_step_rejected)

lemma cancel_wrapped: "wrapped (cancel s) = wrapped s"
  by (simp add: cancel_def Let_def split: reject_fn.splits)

text \<open>Claim C8: a pseudo-cancellable cancelled while the promise it wraps is pending rejects
  with \<open>Cancellation\<close>; whatever happens afterwards (the wrapped promise fulfilled or
  rejected, its callback run, further cancels), the waiter's promise stays rejected with
  \<open>Cancellation\<close>; and \<open>cancel\<close> leaves the wrapped promise as it is, free to settle
  later either way.\<close>

theorem pseudo_cancel_suppresses:
  "newPromise (cancel (pseudoCancellable Pending)) = Rejected Cancellation \<and>
   newPromise (pseudo_run evs (cancel (pseudoCancellable Pending))) = Rejected Cancellation \<and>
   wrapped (cancel s) = wrapped s \<and>
   wrapped (pseudo_step (Fulfil v) (cancel (pseudoCancellable Pending))) = Fulfilled v \<and>
   wrapped (pseudo_step (Fail e) (cancel (pseudoCancellable Pending))) = Rejected e"
proof -
  have c: "newPromise (cancel (pseudoCancellable Pending)) = Rejected Cancellation"
    by (simp add: cancel_def pseudoCancellable_def promise_reject_def)
  have w: "wrapped (cancel (pseudoCancellable Pending)) = Pending"
    by (simp add: cancel_wrapped) (simp add: pseudoCancellable_def)
  have "wrapped (pseudo_step (Fulfil v) (cancel (pseudoCancellable Pending))) = Fulfilled v"
    by (simp add: w promise_resolve_def)
  moreover have "wrapped (pseudo_step (Fail e) (cancel (pseudoCancellable Pending))) = Rejected e"
    by (simp add: w promise_reject_def)
  ultimately show ?thesis
    using c pseudo_run_rejected [OF c] cancel_wrapped by blast
qed

section \<open>Disconnecting twice\<close>

lemma cancel_idem: "cancel (cancel s) = cancel s"
  by (cases "newPromise s")
     (auto simp: cancel_def Let_def promise_reject_def split: reject_fn.splits)

lemma cancelLoops_started:
  "recvCancel c = Some r \<Longrightarrow> sendCancel c = Some s \<Longrightarrow>
   cancelLoops c = (None, c\<lparr>recvCancel := Some (cancel r), sendCancel := Some (cancel s)\<rparr>)"
  by (simp add: cancelLoops_def Let_def)

lemma disconnect_started:
  assumes "recvCancel c = Some r" and "sendCancel c = Some s"
    and "sock_close ops (socket c) = (e, k)"
  shows "disconnect ops c =
     (Returns (),
      c\<lparr>connected := False, recvCancel := Some (cancel r), sendCancel := Some (cancel s),
        socket := k,
        conn_log := conn_log c @
          (case e of None \<Rightarrow> []
           | Some x \<Rightarrow> [Log_error ''error while closing socket connection''])\<rparr>)"
proof -
  have "cancelLoops (c\<lparr>connected := False\<rparr>) =
      (None, c\<lparr>connected := False, recvCancel := Some (cancel r),
               sendCancel := Some (cancel s)\<rparr>)"
    using assms(1,2) by (simp add: cancelLoops_started)
  then show ?thesis
    using assms(3) by (cases e) (simp_all add: disconnect_def)
qed

text \<open>Claim C9, as stated, makes \<open>disconnect\<close> on a connection that is not connected a
  call without effect that never throws. \<open>disconnect\<close> tests nothing before it acts: on a
  connection on which \<open>connect\<close> never ran both cancel handles are \<open>undefined\<close> and the call
  throws, and on a started connection a second call closes the socket a second time.\<close>

theorem disconnect_noop_counterexample:
  "fst (disconnect recording_socket (Connection_constructor []))
     = Throws (TypeError ''Cannot read properties of undefined (reading cancel)'') \<and>
   socket (snd (disconnect recording_socket started_connection))
     = [Sock_connect, Sock_close] \<and>
   socket (snd (disconnect recording_socket (snd (disconnect recording_socket started_connection))))
     = [Sock_connect, Sock_close, Sock_close]"
  by (simp add: started_connection_def disconnect_def cancelLoops_def connect_def
      Connection_constructor_def recording_socket_def Let_def)

text \<open>Claim C9, amended: on a connection whose loops have been started, so that both cancel
  handles exist, \<open>disconnect\<close> returns without throwing, and so does a second call after
  it; the second call leaves \<open>_connected\<close> false and both handles as the first call left
  them, and what it does is close the socket once more, logging an error when that close
  fails.\<close>

theorem disconnect_again:
  assumes "recvCancel c \<noteq> None" and "sendCancel c \<noteq> None"
  shows "fst (disconnect ops c) = Returns () \<and>
         fst (disconnect ops (snd (disconnect ops c))) = Returns () \<and>
         \<not> connected (snd (disconnect ops c)) \<and>
         connected (snd (disconnect ops (snd (disconnect ops c))))
           = connected (snd (disconnect ops c)) \<and>
         recvCancel (snd (disconnect ops (snd (disconnect ops c))))
           = recvCancel (snd (disconnect ops c)) \<and>
         sendCancel (snd (disconnect ops (snd (disconnect ops c))))
           = sendCancel (snd (disconnect ops c)) \<and>
         socket (snd (disconnect ops (snd (disconnect ops c))))
           = snd (sock_close ops (socket (snd (disconnect ops c)))) \<and>
         conn_log (snd (disconnect ops (snd (disconnect ops c))))
           = conn_log (snd (disconnect ops c)) @
             (case fst (sock_close ops (socket (snd (disconnect ops c)))) of
                None \<Rightarrow> []
              | Some x \<Rightarrow> [Log_error ''error while closing socket connection''])"
proof -
  obtain r s where rs: "recvCancel c = Some r" "sendCancel c = Some s"
    using assms by auto
  obtain e1 k1 where k1: "sock_close ops (socket c) = (e1, k1)"
    by (cases "sock_close ops (socket c)")
  obtain e2 k2 where k2: "sock_close ops k1 = (e2, k2)"
    by (cases "sock_close ops k1")
  let ?c1 = "c\<lparr>connected := False, recvCancel := Some (cancel r),
               sendCancel := Some (cancel s), socket := k1,
               conn_log := conn_log c @
                 (case e1 of None \<Rightarrow> []
                  | Some x \<Rightarrow> [Log_error ''error while closing socket connection''])\<rparr>"
  have d1: "disconnect ops c = (Returns (), ?c1)"
    using rs k1 by (rule disconnect_started)
  have "disconnect ops ?c1 =
      (Returns (),
       ?c1\<lparr>connected := False, recvCancel := Some (cancel (cancel r)),
           sendCancel := Some (cancel (cancel s)), socket := k2,
           conn_log := conn_log ?c1 @
             (case e2 of None \<Rightarrow> []
              | Some x \<Rightarrow> [Log_error ''error while closing socket connection''])\<rparr>)"
    by (rule disconnect_started) (simp_all add: k2)
  then show ?thesis
    using d1 k2 by (simp add: cancel_idem)
qed

theorem disconnect_again_witness:
  "recvCancel started_connection \<noteq> None \<and> sendCancel started_connection \<noteq> None \<and>
   fst (disconnect recording_socket (snd (disconnect recording_socket started_connection)))
     = Returns () \<and>
   socket (snd (disconnect recording_socket (snd (disconnect recording_socket started_connection))))
     = snd (sock_close recording_socket [Sock_connect, Sock_close])"
proof -
  have h: "recvCancel started_connection \<noteq> None" "sendCancel started_connection \<noteq> None"
    by (simp_all add: started_connection_def connect_def Connection_constructor_def
        recording_socket_def Let_def)
  have "socket (snd (disconnect recording_socket started_connection))
          = [Sock_connect, Sock_close]"
    by (simp add: started_connection_def disconnect_def cancelLoops_def connect_def
        Connection_constructor_def recording_socket_def Let_def)
  then show ?thesis
    using h disconnect_again [OF h, of recording_socket] by simp
qed

section \<open>Receiving\<close>

lemma recv_loop_returns: "recv_loop c env = Returns r \<Longrightarrow> r \<noteq> [] \<and> c"
  by (induction c env rule: recv_loop.induct) (auto split: if_splits option.splits)

lemma recv_loop_throws:
  "recv_loop c env = Throws e \<Longrightarrow> e = Error ''Not connected'' \<and> (\<not> c \<or> False \<in> snd ` set env)"
  by (induction c env rule: recv_loop.induct) (auto split: if_splits option.splits)

text \<open>Claim C10: \<open>recv\<close> returns only a non-empty payload, and only on a connection that
  was connected; when it throws, the error is "Not connected" and the connection was found
  not connected at one of the tests; an \<open>undefined\<close> or empty value popped while connected
  is skipped, the call going on as the connection then is; and on a connection that is not
  connected the call throws at once.\<close>

theorem recv_nonempty:
  "(recv c env = Returns r \<longrightarrow> r \<noteq> [] \<and> connected c) \<and>
   (recv c env = Throws e \<longrightarrow> e = Error ''Not connected'' \<and> (\<not> connected c \<or> False \<in> snd ` set env)) \<and>
   (connected c \<and> (x = None \<or> x = Some []) \<longrightarrow>
      recv c ((x, k) # env) = recv (c\<lparr>connected := k\<rparr>) env) \<and>
   (\<not> connected c \<longrightarrow> recv c env = Throws (Error ''Not connected''))"
  using recv_loop_returns [of "connected c" env r] recv_loop_throws [of "connected c" env e]
  by (cases env) (auto simp: recv_def)

theorem recv_nonempty_witness:
  "recv (Connection_constructor []\<lparr>connected := True\<rparr>)
      [(None, True), (Some [], True), (Some [1, 2], True)] = Returns [1, 2] \<and>
   [1, 2] \<noteq> ([] :: bytes) \<and>
   recv (Connection_constructor []\<lparr>connected := True\<rparr>) [(None, False)]
     = Throws (Error ''Not connected'')"
  using recv_nonempty [of "Connection_constructor []\<lparr>connected := True\<rparr>"
          "[(None, True), (Some [], True), (Some [1, 2], True)]" "[1, 2]"]
  by (simp add: recv_def Connection_constructor_def)

end
